theory Spec2Isabelle
  imports Main "HOL-Library.Multiset"
begin

section \<open>Data model\<close>

text \<open>
  The Go struct \<^verbatim>\<open>Package\<close>.  A Go string is a sequence of bytes, here a
  \<^typ>\<open>string\<close>; a slice of strings is a list (a nil slice and an empty slice are
  both \<open>[]\<close>: the program only ranges over them, appends to them and takes their length).
\<close>

record Package =
  Name :: string
  Version :: string
  InstallReason :: string
  Dependencies :: "string list"
  RequiredBy :: "string list"

type_synonym InstallChain = "string list"

text \<open>
  \<^verbatim>\<open>PackageCache.packages\<close> is a \<^verbatim>\<open>map[string]*Package\<close>.  Every pointer in it
  comes from its own call of \<^verbatim>\<open>parseDescFile\<close> and is stored under one key, so a
  write through such a pointer is a write to the entry of that key.

  Go visits the entries of a map in an order that the language leaves unspecified and
  that differs from one \<^verbatim>\<open>range\<close> statement to the next.  Every function below that
  ranges over the cache therefore takes that order as an argument \<open>ks\<close>: the keys of
  the cache in the order this \<^verbatim>\<open>range\<close> visits them.
\<close>

type_synonym PackageCache = "string \<rightharpoonup> Package"

definition rangeValues :: "string list \<Rightarrow> PackageCache \<Rightarrow> Package list" where
  "rangeValues ks cache = List.map_filter cache ks"

definition rangeOrder :: "string list \<Rightarrow> PackageCache \<Rightarrow> bool" where
  "rangeOrder ks cache \<longleftrightarrow> distinct ks \<and> set ks = dom cache"

text \<open>
  What stops a function other than a normal return: the run-time panic of an index
  expression out of range, the error of \<^verbatim>\<open>os.ReadDir\<close>, of \<^verbatim>\<open>os.Open\<close>, of the
  scanner, and the error value that \<^verbatim>\<open>getPackageInfo\<close> builds.
\<close>

datatype error =
  IndexOutOfRange
  | ReadDirError
  | OpenError
  | ScanError
  | PackageNotFound string

definition explicitlyInstalled :: string where
  "explicitlyInstalled = ''Explicitly installed''"

definition installedAsDependency :: string where
  "installedAsDependency = ''Installed as a dependency''"

section \<open>Dependency names\<close>

text \<open>
  \<^verbatim>\<open>strings.FieldsFunc(s, f)\<close> of the Go library: the maximal runs of characters of
  \<open>s\<close> that do not satisfy \<open>f\<close>, in order; the empty list when there is none.  As in
  the library's loop, the second argument says whether a field is open and holds what
  was read of it.  The library decodes \<open>s\<close> into code points; the only predicate used
  here accepts four ASCII characters, and no byte of a longer UTF-8 sequence is an
  ASCII byte, so that splitting bytes gives the same fields.
\<close>

fun fieldsFrom :: "(char \<Rightarrow> bool) \<Rightarrow> string option \<Rightarrow> string \<Rightarrow> string list" where
  "fieldsFrom f None [] = []"
| "fieldsFrom f (Some w) [] = [w]"
| "fieldsFrom f None (c # cs) =
     (if f c then fieldsFrom f None cs else fieldsFrom f (Some [c]) cs)"
| "fieldsFrom f (Some w) (c # cs) =
     (if f c then w # fieldsFrom f None cs else fieldsFrom f (Some (w @ [c])) cs)"

definition FieldsFunc :: "string \<Rightarrow> (char \<Rightarrow> bool) \<Rightarrow> string list" where
  "FieldsFunc s f = fieldsFrom f None s"

text \<open>The function literal of \<^verbatim>\<open>cleanDependencyName\<close>.\<close>

definition isSeparator :: "char \<Rightarrow> bool" where
  "isSeparator r \<longleftrightarrow> r = CHR '' '' \<or> r = CHR ''<'' \<or> r = CHR ''>'' \<or> r = CHR ''=''"

text \<open>
  \<^verbatim>\<open>cleanDependencyName\<close>: element 0 of the fields; the index expression panics when
  there is no field.
\<close>

definition cleanDependencyName :: "string \<Rightarrow> error + string" where
  "cleanDependencyName dep =
     (case FieldsFunc dep isSeparator of
        [] \<Rightarrow> Inl IndexOutOfRange
      | depName # _ \<Rightarrow> Inr depName)"

section \<open>Reverse dependencies\<close>

text \<open>
  \<^verbatim>\<open>findRequiredBy\<close>.  The inner loop over the dependencies of one package: it stops
  at the first dependency whose cleaned name is \<open>pkgName\<close> (the \<^verbatim>\<open>break\<close>), so the
  dependencies after that one are not cleaned.  The result says whether it found one.
\<close>

fun dependsOn :: "string \<Rightarrow> string list \<Rightarrow> error + bool" where
  "dependsOn pkgName [] = Inr False"
| "dependsOn pkgName (dep # deps) =
     (case cleanDependencyName dep of
        Inl e \<Rightarrow> Inl e
      | Inr depName \<Rightarrow> if depName = pkgName then Inr True else dependsOn pkgName deps)"

fun requiredByLoop :: "string \<Rightarrow> Package list \<Rightarrow> string list \<Rightarrow> error + string list" where
  "requiredByLoop pkgName [] requiredBy = Inr requiredBy"
| "requiredByLoop pkgName (pkg # pkgs) requiredBy =
     (case dependsOn pkgName (Dependencies pkg) of
        Inl e \<Rightarrow> Inl e
      | Inr found \<Rightarrow>
          requiredByLoop pkgName pkgs (if found then requiredBy @ [Name pkg] else requiredBy))"

definition findRequiredBy :: "string list \<Rightarrow> string \<Rightarrow> PackageCache \<Rightarrow> error + string list" where
  "findRequiredBy ks pkgName cache = requiredByLoop pkgName (rangeValues ks cache) []"

text \<open>
  \<^verbatim>\<open>buildReverseDependencyMap\<close>.  The map \<^verbatim>\<open>reverseDeps\<close> is only read by index
  expressions \<^verbatim>\<open>reverseDeps[k]\<close>, which give the nil slice for a key that is
  not there: it is a function from keys to lists, \<open>[]\<close> where nothing was stored.
\<close>

type_synonym ReverseDeps = "string \<Rightarrow> string list"

fun addDependencies :: "string \<Rightarrow> string list \<Rightarrow> ReverseDeps \<Rightarrow> error + ReverseDeps" where
  "addDependencies name [] reverseDeps = Inr reverseDeps"
| "addDependencies name (dep # deps) reverseDeps =
     (case cleanDependencyName dep of
        Inl e \<Rightarrow> Inl e
      | Inr depName \<Rightarrow>
          addDependencies name deps (reverseDeps(depName := reverseDeps depName @ [name])))"

fun buildLoop :: "Package list \<Rightarrow> ReverseDeps \<Rightarrow> error + ReverseDeps" where
  "buildLoop [] reverseDeps = Inr reverseDeps"
| "buildLoop (pkg # pkgs) reverseDeps =
     (case addDependencies (Name pkg) (Dependencies pkg) reverseDeps of
        Inl e \<Rightarrow> Inl e
      | Inr reverseDeps' \<Rightarrow> buildLoop pkgs reverseDeps')"

definition buildReverseDependencyMap :: "string list \<Rightarrow> PackageCache \<Rightarrow> error + ReverseDeps" where
  "buildReverseDependencyMap ks cache = buildLoop (rangeValues ks cache) (\<lambda>_. [])"

section \<open>Installation chains\<close>

text \<open>
  A \<^verbatim>\<open>for ... range\<close> loop over a list whose body may not return: the loop returns
  no state as soon as one run of the body returns none.
\<close>

primrec rangeLoop :: "'a list \<Rightarrow> ('a \<Rightarrow> 's \<Rightarrow> 's option) \<Rightarrow> 's \<Rightarrow> 's option" where
  "rangeLoop [] body s = Some s"
| "rangeLoop (x # xs) body s =
     (case body x s of None \<Rightarrow> None | Some s' \<Rightarrow> rangeLoop xs body s')"

text \<open>
  \<^verbatim>\<open>dfsBackwards\<close>.  The map \<^verbatim>\<open>visited\<close> and the slice \<^verbatim>\<open>*chains\<close> (here
  \<open>allChains\<close>) are shared by all the calls: they are the state, passed in and returned.  \<^verbatim>\<open>visited\<close> is only read
  by \<^verbatim>\<open>visited[k]\<close> (false for a key that is not there), so it is a function to
  \<^typ>\<open>bool\<close>.  The deferred function runs at both returns that follow the
  \<^verbatim>\<open>defer\<close> statement, not at the return before it.  \<open>path\<close> is copied before each
  append, so every call has its own.

  The first argument bounds the depth of the nested calls: a call that would need a
  deeper nesting returns \<open>None\<close>.
\<close>

type_synonym Visited = "string \<Rightarrow> bool"

primrec dfsBackwards ::
  "nat \<Rightarrow> string \<Rightarrow> string list \<Rightarrow> Visited \<times> InstallChain list \<Rightarrow> PackageCache \<Rightarrow> ReverseDeps
     \<Rightarrow> (Visited \<times> InstallChain list) option" where
  "dfsBackwards 0 currentPkg path st cache reverseDeps = None"
| "dfsBackwards (Suc depth) currentPkg path st cache reverseDeps =
     (case st of (visited, allChains) \<Rightarrow>
        if visited currentPkg then Some (visited, allChains)
        else
          let visited1 = visited(currentPkg := True) in
          if (case cache currentPkg of
                None \<Rightarrow> False
              | Some pkg \<Rightarrow> InstallReason pkg = explicitlyInstalled)
          then Some (visited1(currentPkg := False), allChains @ [path])
          else
            (case rangeLoop (reverseDeps currentPkg)
                    (\<lambda>dependentPkg st'.
                        dfsBackwards depth dependentPkg (path @ [dependentPkg]) st'
                          cache reverseDeps)
                    (visited1, allChains) of
               None \<Rightarrow> None
             | Some (visited2, allChains2) \<Rightarrow> Some (visited2(currentPkg := False), allChains2)))"

text \<open>
  \<^verbatim>\<open>reverseChain\<close>: the loop \<^verbatim>\<open>for i, j := 0, len(chain)-1; i < j; i, j = i+1, j-1\<close>
  that swaps \<^verbatim>\<open>chain[i]\<close> and \<^verbatim>\<open>chain[j]\<close>.  For the empty chain Go starts with
  \<open>j = -1\<close> and the truncated \<open>0\<close> here; the loop body does not run in either case.
\<close>

function reverseLoop :: "nat \<Rightarrow> nat \<Rightarrow> string list \<Rightarrow> string list" where
  "reverseLoop i j chain =
     (if i < j then reverseLoop (i + 1) (j - 1) (chain[i := chain ! j, j := chain ! i])
      else chain)"
  by pat_completeness auto
termination
  by (relation "measure (\<lambda>(i, j, chain). j - i)") auto

definition reverseChain :: "string list \<Rightarrow> string list" where
  "reverseChain chain = reverseLoop 0 (length chain - 1) chain"

text \<open>
  \<^verbatim>\<open>findInstallationChains\<close>.  \<open>None\<close>: the traversal needs nested calls deeper than
  \<open>depth\<close>; \<open>Some (Inl e)\<close>: it panics; \<open>Some (Inr chains)\<close>: it returns \<open>chains\<close>.
\<close>

definition findInstallationChains ::
  "nat \<Rightarrow> string list \<Rightarrow> string \<Rightarrow> PackageCache \<Rightarrow> (error + InstallChain list) option" where
  "findInstallationChains depth ks targetPkg cache =
     (case buildReverseDependencyMap ks cache of
        Inl e \<Rightarrow> Some (Inl e)
      | Inr reverseDeps \<Rightarrow>
          (case dfsBackwards depth targetPkg [targetPkg] (\<lambda>_. False, []) cache reverseDeps of
             None \<Rightarrow> None
           | Some (visited, allChains) \<Rightarrow> Some (Inr (map reverseChain allChains))))"

section \<open>Package lookup\<close>

text \<open>
  \<^verbatim>\<open>getPackageInfo\<close> assigns to \<^verbatim>\<open>pkg.RequiredBy\<close> through the pointer that the cache
  holds under \<open>pkgName\<close>: it returns the record and leaves the cache with that record
  under \<open>pkgName\<close>.
\<close>

definition getPackageInfo ::
  "string list \<Rightarrow> string \<Rightarrow> PackageCache \<Rightarrow> error + Package \<times> PackageCache" where
  "getPackageInfo ks pkgName cache =
     (case cache pkgName of
        None \<Rightarrow> Inl (PackageNotFound pkgName)
      | Some pkg \<Rightarrow>
          (case findRequiredBy ks pkgName cache of
             Inl e \<Rightarrow> Inl e
           | Inr requiredBy \<Rightarrow>
               let pkg' = pkg\<lparr>RequiredBy := requiredBy\<rparr>
               in Inr (pkg', cache(pkgName \<mapsto> pkg'))))"

section \<open>Reading the package database\<close>

text \<open>
  The functions of the Go library \<^verbatim>\<open>strings\<close> that \<^verbatim>\<open>parseDescFile\<close> calls.
  \<^verbatim>\<open>strings.Trim(s, cutset)\<close> is only called with the cut set \<^verbatim>\<open>"%"\<close>.
\<close>

definition HasPrefix :: "string \<Rightarrow> string \<Rightarrow> bool" where
  "HasPrefix s prefix \<longleftrightarrow> take (length prefix) s = prefix"

definition HasSuffix :: "string \<Rightarrow> string \<Rightarrow> bool" where
  "HasSuffix s suffix \<longleftrightarrow>
     length suffix \<le> length s \<and> drop (length s - length suffix) s = suffix"

definition Trim :: "string \<Rightarrow> string \<Rightarrow> string" where
  "Trim s cutset =
     rev (dropWhile (\<lambda>c. c \<in> set cutset) (rev (dropWhile (\<lambda>c. c \<in> set cutset) s)))"

text \<open>
  \<^verbatim>\<open>strings.TrimSpace\<close> removes the leading and the trailing code points that
  \<^verbatim>\<open>unicode.IsSpace\<close> accepts.  These are their UTF-8 encodings: tab, line feed,
  vertical tab, form feed, carriage return, space, U+0085, U+00A0, U+1680, U+2000 to
  U+200A, U+2028, U+2029, U+202F, U+205F and U+3000.  No encoding is the beginning or
  the end of another one.
\<close>

definition spaceCodes :: "string list" where
  "spaceCodes =
     [[CHR 0x09], [CHR 0x0A], [CHR 0x0B], [CHR 0x0C], [CHR 0x0D], [CHR 0x20],
      [CHR 0xC2, CHR 0x85], [CHR 0xC2, CHR 0xA0],
      [CHR 0xE1, CHR 0x9A, CHR 0x80],
      [CHR 0xE2, CHR 0x80, CHR 0x80], [CHR 0xE2, CHR 0x80, CHR 0x81],
      [CHR 0xE2, CHR 0x80, CHR 0x82], [CHR 0xE2, CHR 0x80, CHR 0x83],
      [CHR 0xE2, CHR 0x80, CHR 0x84], [CHR 0xE2, CHR 0x80, CHR 0x85],
      [CHR 0xE2, CHR 0x80, CHR 0x86], [CHR 0xE2, CHR 0x80, CHR 0x87],
      [CHR 0xE2, CHR 0x80, CHR 0x88], [CHR 0xE2, CHR 0x80, CHR 0x89],
      [CHR 0xE2, CHR 0x80, CHR 0x8A],
      [CHR 0xE2, CHR 0x80, CHR 0xA8], [CHR 0xE2, CHR 0x80, CHR 0xA9],
      [CHR 0xE2, CHR 0x80, CHR 0xAF], [CHR 0xE2, CHR 0x81, CHR 0x9F],
      [CHR 0xE3, CHR 0x80, CHR 0x80]]"

function TrimLeftSpace :: "string \<Rightarrow> string" where
  "TrimLeftSpace s =
     (case find (HasPrefix s) spaceCodes of
        None \<Rightarrow> s
      | Some code \<Rightarrow> TrimLeftSpace (drop (length code) s))"
  by pat_completeness auto
termination
proof (relation "measure length")
  fix s code
  assume "find (HasPrefix s) spaceCodes = Some code"
  then have "code \<in> set spaceCodes" and "HasPrefix s code"
    by (auto simp: find_Some_iff)
  then have "code \<noteq> []" and "take (length code) s = code"
    by (auto simp: spaceCodes_def HasPrefix_def)
  then have "s \<noteq> []" by auto
  with \<open>code \<noteq> []\<close> show "(drop (length code) s, s) \<in> measure length" by simp
qed simp

function TrimRightSpace :: "string \<Rightarrow> string" where
  "TrimRightSpace s =
     (case find (HasSuffix s) spaceCodes of
        None \<Rightarrow> s
      | Some code \<Rightarrow> TrimRightSpace (take (length s - length code) s))"
  by pat_completeness auto
termination
proof (relation "measure length")
  fix s code
  assume "find (HasSuffix s) spaceCodes = Some code"
  then have "code \<in> set spaceCodes" and "HasSuffix s code"
    by (auto simp: find_Some_iff)
  then have "code \<noteq> []" and "length code \<le> length s"
    by (auto simp: spaceCodes_def HasSuffix_def)
  then have "length s - length code < length s"
    by (cases code) auto
  then show "(take (length s - length code) s, s) \<in> measure length" by simp
qed simp

definition TrimSpace :: "string \<Rightarrow> string" where
  "TrimSpace s = TrimRightSpace (TrimLeftSpace s)"

text \<open>
  The package database as the program reads it.  \<^verbatim>\<open>os.ReadDir\<close> gives the entries of
  the directory or an error.  A file cannot be opened, or it is scanned: \<open>Scanned
  texts err\<close> holds the values of \<^verbatim>\<open>scanner.Text()\<close> in the order of the calls of
  \<^verbatim>\<open>scanner.Scan()\<close> that return true, and the value of \<^verbatim>\<open>scanner.Err()\<close> after the
  call that returns false.
\<close>

record DirEntry =
  entryName :: string
  IsDir :: bool

datatype File = CannotOpen | Scanned "string list" "error option"

record Store =
  ReadDir :: "error + DirEntry list"
  fileAt :: "string \<Rightarrow> File"

definition pacmanLocalDBPath :: string where
  "pacmanLocalDBPath = ''/var/lib/pacman/local/''"

text \<open>
  \<^verbatim>\<open>filepath.Join(pacmanLocalDBPath, entry.Name(), "desc")\<close>: the name of a directory
  entry has no separator and is neither \<^verbatim>\<open>.\<close> nor \<^verbatim>\<open>..\<close>, so the cleaned path is
  the concatenation.
\<close>

definition descPath :: "string \<Rightarrow> string" where
  "descPath name = pacmanLocalDBPath @ name @ ''/desc''"

text \<open>The body of the loop \<^verbatim>\<open>for scanner.Scan()\<close>, on the package and the current section.\<close>

fun scanLoop :: "string list \<Rightarrow> Package \<times> string \<Rightarrow> Package \<times> string" where
  "scanLoop [] st = st"
| "scanLoop (text # texts) (pkg, currentSection) =
     (let line = TrimSpace text in
      if HasPrefix line ''%'' \<and> HasSuffix line ''%'' then scanLoop texts (pkg, Trim line ''%'')
      else if line = [] then scanLoop texts (pkg, currentSection)
      else scanLoop texts
        (if currentSection = ''NAME'' then pkg\<lparr>Name := line\<rparr>
         else if currentSection = ''VERSION'' then pkg\<lparr>Version := line\<rparr>
         else if currentSection = ''REASON'' then
           (if line = ''1'' then pkg\<lparr>InstallReason := installedAsDependency\<rparr> else pkg)
         else if currentSection = ''DEPENDS'' then
           pkg\<lparr>Dependencies := Dependencies pkg @ [line]\<rparr>
         else pkg,
         currentSection))"

text \<open>
  \<^verbatim>\<open>parseDescFile\<close> returns the package together with the error of the scanner; its
  callers drop the package when the error is not nil, so an error alone is returned
  here.
\<close>

definition parseDescFile :: "Store \<Rightarrow> string \<Rightarrow> error + Package" where
  "parseDescFile store descFile =
     (case fileAt store descFile of
        CannotOpen \<Rightarrow> Inl OpenError
      | Scanned texts err \<Rightarrow>
          (let pkg = fst (scanLoop texts
                 (\<lparr>Name = [], Version = [], InstallReason = explicitlyInstalled,
                   Dependencies = [], RequiredBy = []\<rparr>, []))
           in case err of None \<Rightarrow> Inr pkg | Some e \<Rightarrow> Inl e))"

fun loadEntries :: "Store \<Rightarrow> DirEntry list \<Rightarrow> PackageCache \<Rightarrow> PackageCache" where
  "loadEntries store [] cache = cache"
| "loadEntries store (entry # entries) cache =
     (if \<not> IsDir entry then loadEntries store entries cache
      else
        (case parseDescFile store (descPath (entryName entry)) of
           Inl e \<Rightarrow> loadEntries store entries cache
         | Inr pkg \<Rightarrow> loadEntries store entries (cache(Name pkg \<mapsto> pkg))))"

definition loadAllPackages :: "Store \<Rightarrow> error + PackageCache" where
  "loadAllPackages store =
     (case ReadDir store of
        Inl e \<Rightarrow> Inl e
      | Inr entries \<Rightarrow> Inr (loadEntries store entries Map.empty))"

section \<open>The dependency name as the specification words it\<close>

text \<open>
  The specification describes the cleaned name as the substring of the specifier up to,
  and not including, the first occurrence of \<^verbatim>\<open><\<close>, \<^verbatim>\<open>>\<close>, \<^verbatim>\<open>=\<close> or whitespace.
  This definition follows those words, not the code; it is only compared with
  \<^const>\<open>cleanDependencyName\<close>.
\<close>

definition spec_isSeparator :: "char \<Rightarrow> bool" where
  "spec_isSeparator c \<longleftrightarrow>
     c = CHR ''<'' \<or> c = CHR ''>'' \<or> c = CHR ''='' \<or> c = CHR '' '' \<or>
     c = CHR 0x09 \<or> c = CHR 0x0A \<or> c = CHR 0x0B \<or> c = CHR 0x0C \<or> c = CHR 0x0D"

definition spec_dependencyName :: "string \<Rightarrow> string" where
  "spec_dependencyName dep = takeWhile (\<lambda>c. \<not> spec_isSeparator c) dep"

section \<open>Example databases\<close>

text \<open>
  The scenario of the specification: \<open>A\<close> is explicit and depends on nothing, \<open>B\<close>
  depends on \<open>A\<close>, \<open>C\<close> depends on \<open>B\<close>.
\<close>

definition claimedIndex :: PackageCache where
  "claimedIndex =
     [''A'' \<mapsto> \<lparr>Name = ''A'', Version = ''1'', InstallReason = explicitlyInstalled,
                Dependencies = [], RequiredBy = []\<rparr>,
      ''B'' \<mapsto> \<lparr>Name = ''B'', Version = ''1'', InstallReason = installedAsDependency,
                Dependencies = [''A''], RequiredBy = []\<rparr>,
      ''C'' \<mapsto> \<lparr>Name = ''C'', Version = ''1'', InstallReason = installedAsDependency,
                Dependencies = [''B''], RequiredBy = []\<rparr>]"

text \<open>The same packages with the dependencies the other way: \<open>A\<close> needs \<open>B\<close>, \<open>B\<close> needs \<open>C\<close>.\<close>

definition chainIndex :: PackageCache where
  "chainIndex =
     [''A'' \<mapsto> \<lparr>Name = ''A'', Version = ''1'', InstallReason = explicitlyInstalled,
                Dependencies = [''B''], RequiredBy = []\<rparr>,
      ''B'' \<mapsto> \<lparr>Name = ''B'', Version = ''1'', InstallReason = installedAsDependency,
                Dependencies = [''C''], RequiredBy = []\<rparr>,
      ''C'' \<mapsto> \<lparr>Name = ''C'', Version = ''1'', InstallReason = installedAsDependency,
                Dependencies = [], RequiredBy = []\<rparr>]"

text \<open>\<open>M\<close> and \<open>N\<close> depend on each other and neither is explicit.\<close>

definition cyclicIndex :: PackageCache where
  "cyclicIndex =
     [''M'' \<mapsto> \<lparr>Name = ''M'', Version = ''1'', InstallReason = installedAsDependency,
                Dependencies = [''N''], RequiredBy = []\<rparr>,
      ''N'' \<mapsto> \<lparr>Name = ''N'', Version = ''1'', InstallReason = installedAsDependency,
                Dependencies = [''M''], RequiredBy = []\<rparr>]"

text \<open>The same cycle, and an explicit package \<open>E\<close> that depends on \<open>M\<close>.\<close>

definition rootedCycleIndex :: PackageCache where
  "rootedCycleIndex =
     [''E'' \<mapsto> \<lparr>Name = ''E'', Version = ''1'', InstallReason = explicitlyInstalled,
                Dependencies = [''M>=1''], RequiredBy = []\<rparr>,
      ''M'' \<mapsto> \<lparr>Name = ''M'', Version = ''1'', InstallReason = installedAsDependency,
                Dependencies = [''N''], RequiredBy = []\<rparr>,
      ''N'' \<mapsto> \<lparr>Name = ''N'', Version = ''1'', InstallReason = installedAsDependency,
                Dependencies = [''M''], RequiredBy = []\<rparr>]"

text \<open>The explicit packages \<open>X\<close> and \<open>Y\<close> both depend on \<open>Z\<close>.\<close>

definition diamondIndex :: PackageCache where
  "diamondIndex =
     [''X'' \<mapsto> \<lparr>Name = ''X'', Version = ''1'', InstallReason = explicitlyInstalled,
                Dependencies = [''Z''], RequiredBy = []\<rparr>,
      ''Y'' \<mapsto> \<lparr>Name = ''Y'', Version = ''1'', InstallReason = explicitlyInstalled,
                Dependencies = [''Z''], RequiredBy = []\<rparr>,
      ''Z'' \<mapsto> \<lparr>Name = ''Z'', Version = ''1'', InstallReason = installedAsDependency,
                Dependencies = [], RequiredBy = []\<rparr>]"

text \<open>A database of one package whose \<^verbatim>\<open>desc\<close> file has no \<^verbatim>\<open>%NAME%\<close> section.\<close>

definition namelessStore :: Store where
  "namelessStore =
     \<lparr>ReadDir = Inr [\<lparr>entryName = ''foo-1.0'', IsDir = True\<rparr>],
      fileAt = (\<lambda>path. if path = ''/var/lib/pacman/local/foo-1.0/desc''
                 then Scanned [''%VERSION%'', ''1.0'', ''''] None
                 else CannotOpen)\<rparr>"

text \<open>A database of two packages: \<open>b\<close> depends on \<open>a\<close>.\<close>

definition twoPackageStore :: Store where
  "twoPackageStore =
     \<lparr>ReadDir = Inr [\<lparr>entryName = ''a-1.0'', IsDir = True\<rparr>,
                     \<lparr>entryName = ''b-2.0'', IsDir = True\<rparr>],
      fileAt = (\<lambda>path.
                 if path = ''/var/lib/pacman/local/a-1.0/desc''
                 then Scanned [''%NAME%'', ''a'', '''', ''%VERSION%'', ''1.0'', '''',
                               ''%REASON%'', ''1'', ''''] None
                 else if path = ''/var/lib/pacman/local/b-2.0/desc''
                 then Scanned [''%NAME%'', ''b'', '''', ''%VERSION%'', ''2.0'', '''',
                               ''%DEPENDS%'', ''a>=1.0'', ''''] None
                 else CannotOpen)\<rparr>"

text \<open>
  A database with a plain file, two directories whose \<^verbatim>\<open>desc\<close> files give the same
  name \<open>a\<close>, and a directory without a \<^verbatim>\<open>desc\<close> file.
\<close>

definition duplicateStore :: Store where
  "duplicateStore =
     \<lparr>ReadDir = Inr [\<lparr>entryName = ''ALPM_DB_VERSION'', IsDir = False\<rparr>,
                     \<lparr>entryName = ''a-1.0'', IsDir = True\<rparr>,
                     \<lparr>entryName = ''a-2.0'', IsDir = True\<rparr>,
                     \<lparr>entryName = ''c-3.0'', IsDir = True\<rparr>],
      fileAt = (\<lambda>path.
                 if path = ''/var/lib/pacman/local/a-1.0/desc''
                 then Scanned [''%NAME%'', ''a'', '''', ''%VERSION%'', ''1.0'', ''''] None
                 else if path = ''/var/lib/pacman/local/a-2.0/desc''
                 then Scanned [''%NAME%'', ''a'', '''', ''%VERSION%'', ''2.0'', ''''] None
                 else CannotOpen)\<rparr>"

text \<open>
  A database of one package whose \<^verbatim>\<open>%DEPENDS%\<close> section has a line that is only a
  comparison operator.
\<close>

definition brokenStore :: Store where
  "brokenStore =
     \<lparr>ReadDir = Inr [\<lparr>entryName = ''foo-1.0'', IsDir = True\<rparr>],
      fileAt = (\<lambda>path. if path = ''/var/lib/pacman/local/foo-1.0/desc''
                 then Scanned [''%NAME%'', ''foo'', '''', ''%DEPENDS%'', ''=''] None
                 else CannotOpen)\<rparr>"

section \<open>Properties of the dependency names\<close>

lemma fieldsFrom_open:
  "fieldsFrom f (Some w) s =
     (w @ takeWhile (\<lambda>c. \<not> f c) s) # fieldsFrom f None (dropWhile (\<lambda>c. \<not> f c) s)"
proof (induction s arbitrary: w)
  case Nil
  show ?case by simp
next
  case (Cons c cs)
  show ?case
  proof (cases "f c")
    case True
    then show ?thesis by simp
  next
    case False
    then show ?thesis using Cons.IH [of "w @ [c]"] by simp
  qed
qed

lemma fieldsFrom_closed_all:
  "\<forall>c\<in>set s. f c \<Longrightarrow> fieldsFrom f None s = []"
  by (induction s) simp_all

lemma fieldsFrom_closed_some:
  "\<exists>c\<in>set s. \<not> f c \<Longrightarrow>
   \<exists>rest. fieldsFrom f None s = takeWhile (\<lambda>c. \<not> f c) (dropWhile f s) # rest"
proof (induction s)
  case Nil
  then show ?case by simp
next
  case (Cons c cs)
  show ?case
  proof (cases "f c")
    case True
    with Cons.prems have "\<exists>c\<in>set cs. \<not> f c" by auto
    from Cons.IH [OF this] True show ?thesis by simp
  next
    case False
    then show ?thesis by (simp add: fieldsFrom_open)
  qed
qed

lemma cleanDependencyName_panics:
  "\<forall>c\<in>set dep. isSeparator c \<Longrightarrow> cleanDependencyName dep = Inl IndexOutOfRange"
  by (simp add: cleanDependencyName_def FieldsFunc_def fieldsFrom_closed_all)

lemma cleanDependencyName_returns:
  assumes "\<exists>c\<in>set dep. \<not> isSeparator c"
  shows "cleanDependencyName dep =
         Inr (takeWhile (\<lambda>c. \<not> isSeparator c) (dropWhile isSeparator dep))"
proof -
  from fieldsFrom_closed_some [OF assms] obtain rest where
    "fieldsFrom isSeparator None dep =
       takeWhile (\<lambda>c. \<not> isSeparator c) (dropWhile isSeparator dep) # rest"
    by blast
  then show ?thesis by (simp add: cleanDependencyName_def FieldsFunc_def)
qed

section \<open>The traversal\<close>

lemma rangeLoop_appends:
  assumes "\<forall>x\<in>set xs. \<forall>cs. body x (v, cs) = map_option (\<lambda>new. (v, cs @ new)) (g x)"
  shows "rangeLoop xs body (v, cs) = map_option (\<lambda>news. (v, cs @ concat news)) (those (map g xs))"
  using assms
proof (induction xs arbitrary: cs)
  case Nil
  show ?case by simp
next
  case (Cons x xs)
  have bx: "body x (v, cs) = map_option (\<lambda>new. (v, cs @ new)) (g x)"
    using Cons.prems by simp
  have rest: "\<forall>y\<in>set xs. \<forall>cs. body y (v, cs) = map_option (\<lambda>new. (v, cs @ new)) (g y)"
    using Cons.prems by simp
  show ?case
  proof (cases "g x")
    case None
    with bx show ?thesis by simp
  next
    case (Some new)
    with bx have b: "body x (v, cs) = Some (v, cs @ new)" by simp
    have r: "rangeLoop xs body (v, cs @ new) =
        map_option (\<lambda>news. (v, (cs @ new) @ concat news)) (those (map g xs))"
      by (rule Cons.IH [OF rest])
    show ?thesis
    proof (cases "those (map g xs)")
      case None
      with b r Some show ?thesis by simp
    next
      case (Some news)
      with b r \<open>g x = Some new\<close> show ?thesis by simp
    qed
  qed
qed

lemma dfs_Suc:
  "dfsBackwards (Suc n) cur path (v, cs) cache rd =
     (if v cur then Some (v, cs)
      else if (case cache cur of None \<Rightarrow> False | Some pkg \<Rightarrow> InstallReason pkg = explicitlyInstalled)
      then Some (v, cs @ [path])
      else (case rangeLoop (rd cur) (\<lambda>d st. dfsBackwards n d (path @ [d]) st cache rd)
                   (v(cur := True), cs) of
              None \<Rightarrow> None
            | Some (v2, cs2) \<Rightarrow> Some (v2(cur := False), cs2)))"
proof (cases "v cur")
  case True
  then show ?thesis by simp
next
  case False
  then have "v(cur := False) = v" by (auto simp: fun_eq_iff)
  with False show ?thesis by (simp add: Let_def)
qed

declare dfsBackwards.simps [simp del]

lemma dfs_acc:
  "dfsBackwards n cur path (v, cs) cache rd =
     map_option (\<lambda>r. (v, cs @ snd r)) (dfsBackwards n cur path (v, []) cache rd)"
proof (induction n arbitrary: cur path v cs)
  case 0
  show ?case by (simp add: dfsBackwards.simps(1))
next
  case (Suc n)
  let ?body = "\<lambda>d st. dfsBackwards n d (path @ [d]) st cache rd"
  let ?v1 = "v(cur := True)"
  let ?g = "\<lambda>d. map_option snd (dfsBackwards n d (path @ [d]) (?v1, []) cache rd)"
  have body: "\<forall>d\<in>set (rd cur). \<forall>cs. ?body d (?v1, cs) = map_option (\<lambda>new. (?v1, cs @ new)) (?g d)"
  proof (intro ballI allI)
    fix d cs'
    show "?body d (?v1, cs') = map_option (\<lambda>new. (?v1, cs' @ new)) (?g d)"
      unfolding option.map_comp comp_def by (rule Suc.IH)
  qed
  have loop: "rangeLoop (rd cur) ?body (?v1, cs') =
      map_option (\<lambda>news. (?v1, cs' @ concat news)) (those (map ?g (rd cur)))" for cs'
    by (rule rangeLoop_appends [OF body])
  show ?case
  proof (cases "those (map ?g (rd cur))")
    case None
    then show ?thesis by (simp only: dfs_Suc loop) simp
  next
    case (Some news)
    have "\<not> v cur \<Longrightarrow> v(cur := False) = v" by (auto simp: fun_eq_iff)
    with Some show ?thesis by (simp only: dfs_Suc loop) simp
  qed
qed

lemma those_Some_map: "those xs = Some ys \<Longrightarrow> xs = map Some ys"
  by (induction xs arbitrary: ys) (auto split: option.splits)

lemma those_None_iff: "those xs = None \<longleftrightarrow> None \<in> set xs"
  by (induction xs) (auto split: option.splits)

lemma dfs_unfold:
  "dfsBackwards (Suc n) cur path (v, cs) cache rd =
     (if v cur then Some (v, cs)
      else if (case cache cur of None \<Rightarrow> False | Some pkg \<Rightarrow> InstallReason pkg = explicitlyInstalled)
      then Some (v, cs @ [path])
      else map_option (\<lambda>news. (v, cs @ concat news))
             (those (map (\<lambda>d. map_option snd
                (dfsBackwards n d (path @ [d]) (v(cur := True), []) cache rd)) (rd cur))))"
proof -
  let ?body = "\<lambda>d st. dfsBackwards n d (path @ [d]) st cache rd"
  let ?v1 = "v(cur := True)"
  let ?g = "\<lambda>d. map_option snd (dfsBackwards n d (path @ [d]) (?v1, []) cache rd)"
  have body: "\<forall>d\<in>set (rd cur). \<forall>cs. ?body d (?v1, cs) = map_option (\<lambda>new. (?v1, cs @ new)) (?g d)"
  proof (intro ballI allI)
    fix d cs'
    show "?body d (?v1, cs') = map_option (\<lambda>new. (?v1, cs' @ new)) (?g d)"
      unfolding option.map_comp comp_def by (rule dfs_acc)
  qed
  have loop: "rangeLoop (rd cur) ?body (?v1, cs) =
      map_option (\<lambda>news. (?v1, cs @ concat news)) (those (map ?g (rd cur)))"
    by (rule rangeLoop_appends [OF body])
  have restore: "\<not> v cur \<Longrightarrow> (v(cur := True))(cur := False) = v" by (auto simp: fun_eq_iff)
  show ?thesis
  proof (cases "those (map ?g (rd cur))")
    case None
    then show ?thesis by (simp only: dfs_Suc loop) simp
  next
    case (Some news)
    with restore show ?thesis by (simp only: dfs_Suc loop) simp
  qed
qed

lemma dfs_visited:
  assumes "dfsBackwards n cur path (v, cs) cache rd = Some (v', cs')"
  shows "v' = v"
proof -
  from assms dfs_acc [of n cur path v cs cache rd] show ?thesis by auto
qed

lemma dfs_distinct:
  assumes "dfsBackwards n cur path (v, []) cache rd = Some (v', new)"
    and "path = p @ [cur]" and "distinct p" and "\<forall>x\<in>set p. v x"
  shows "\<forall>c\<in>set new. distinct c"
  using assms
proof (induction n arbitrary: cur path v v' new p)
  case 0
  then show ?case by (simp add: dfsBackwards.simps(1))
next
  case (Suc n)
  let ?g = "\<lambda>d. map_option snd (dfsBackwards n d (path @ [d]) (v(cur := True), []) cache rd)"
  show ?case
  proof (cases "v cur")
    case True
    with Suc.prems(1) [unfolded dfs_unfold] show ?thesis by simp
  next
    case notv: False
    with Suc.prems(2-4) have dpath: "distinct path" by auto
    show ?thesis
    proof (cases "case cache cur of None \<Rightarrow> False | Some pkg \<Rightarrow> InstallReason pkg = explicitlyInstalled")
      case True
      with notv Suc.prems(1) [unfolded dfs_unfold] have "new = [path]" by simp
      with dpath show ?thesis by simp
    next
      case False
      with notv Suc.prems(1) [unfolded dfs_unfold] obtain news where
        news: "those (map ?g (rd cur)) = Some news" and new: "new = concat news"
        by auto
      show ?thesis
      proof
        fix c assume "c \<in> set new"
        with new obtain ns where ns: "ns \<in> set news" and c: "c \<in> set ns" by auto
        have "Some ns \<in> set (map ?g (rd cur))"
          using ns by (simp only: those_Some_map [OF news]) simp
        then have "Some ns \<in> ?g ` set (rd cur)" by (simp only: set_map)
        then obtain d where "Some ns = ?g d" by blast
        then have "?g d = Some ns" by simp
        then obtain v'' where d: "dfsBackwards n d (path @ [d]) (v(cur := True), []) cache rd = Some (v'', ns)"
          by auto
        have "\<forall>x\<in>set path. (v(cur := True)) x" using Suc.prems(2,4) by auto
        from Suc.IH [OF d refl dpath this] c show "distinct c" by simp
      qed
    qed
  qed
qed

lemma dfs_returns:
  assumes "finite S" and "\<forall>k. set (rd k) \<subseteq> S" and "cur \<in> S"
    and "card {x \<in> S. \<not> v x} < n"
  shows "\<exists>new. dfsBackwards n cur path (v, []) cache rd = Some (v, new)"
  using assms(3,4)
proof (induction n arbitrary: cur path v)
  case 0
  then show ?case by (simp add: dfsBackwards.simps(1))
next
  case (Suc n)
  let ?v1 = "v(cur := True)"
  let ?g = "\<lambda>d. map_option snd (dfsBackwards n d (path @ [d]) (?v1, []) cache rd)"
  show ?case
  proof (cases "v cur")
    case True
    then show ?thesis by (simp only: dfs_unfold) simp
  next
    case notv: False
    have eq: "{x \<in> S. \<not> ?v1 x} = {x \<in> S. \<not> v x} - {cur}" by auto
    have "cur \<in> {x \<in> S. \<not> v x}" using notv Suc.prems(1) by simp
    moreover have "finite {x \<in> S. \<not> v x}" using assms(1) by simp
    ultimately have "card ({x \<in> S. \<not> v x} - {cur}) < card {x \<in> S. \<not> v x}"
      by (intro card_Diff1_less)
    then have "card {x \<in> S. \<not> ?v1 x} < card {x \<in> S. \<not> v x}"
      by (simp only: eq)
    with Suc.prems(2) have less: "card {x \<in> S. \<not> ?v1 x} < n" by simp
    have "None \<notin> set (map ?g (rd cur))"
    proof
      assume "None \<in> set (map ?g (rd cur))"
      then obtain d where d: "d \<in> set (rd cur)" and none: "?g d = None" by auto
      from d assms(2) have "d \<in> S" by auto
      from Suc.IH [OF this less, of "path @ [d]"] obtain new where
        "dfsBackwards n d (path @ [d]) (?v1, []) cache rd = Some (?v1, new)" by blast
      with none show False by simp
    qed
    then obtain news where "those (map ?g (rd cur)) = Some news"
      using those_None_iff [of "map ?g (rd cur)"] by auto
    with notv show ?thesis by (simp only: dfs_unfold) auto
  qed
qed

lemma dfs_deeper:
  "dfsBackwards n cur path (v, []) cache rd = Some r \<Longrightarrow>
   dfsBackwards (Suc n) cur path (v, []) cache rd = Some r"
proof (induction n arbitrary: cur path v r)
  case 0
  then show ?case by (simp add: dfsBackwards.simps(1))
next
  case (Suc n)
  let ?v1 = "v(cur := True)"
  let ?g = "\<lambda>m d. map_option snd (dfsBackwards m d (path @ [d]) (?v1, []) cache rd)"
  show ?case
  proof (cases "v cur \<or> (case cache cur of None \<Rightarrow> False | Some pkg \<Rightarrow> InstallReason pkg = explicitlyInstalled)")
    case True
    with Suc.prems [unfolded dfs_unfold] show ?thesis
      by (simp only: dfs_unfold [of "Suc n"]) auto
  next
    case False
    with Suc.prems [unfolded dfs_unfold] obtain news where
      news: "those (map (?g n) (rd cur)) = Some news" and r: "r = (v, concat news)"
      by auto
    have "map (?g (Suc n)) (rd cur) = map (?g n) (rd cur)"
    proof (rule map_cong [OF refl])
      fix d assume "d \<in> set (rd cur)"
      then have "?g n d \<in> set (map (?g n) (rd cur))" by simp
      then have "?g n d \<in> set (map Some news)" by (simp only: those_Some_map [OF news])
      then obtain ns where "?g n d = Some ns" by auto
      then obtain v'' where d: "dfsBackwards n d (path @ [d]) (?v1, []) cache rd = Some (v'', ns)"
        by auto
      show "?g (Suc n) d = ?g n d" by (simp only: Suc.IH [OF d] d)
    qed
    with news r False show ?thesis by (simp only: dfs_unfold [of "Suc n"]) simp
  qed
qed

lemma dfs_deeper_add:
  "dfsBackwards n cur path (v, []) cache rd = Some r \<Longrightarrow>
   dfsBackwards (n + k) cur path (v, []) cache rd = Some r"
proof (induction k)
  case 0
  then show ?case by simp
next
  case (Suc k)
  from dfs_deeper [OF Suc.IH [OF Suc.prems]] show ?case by (simp only: add_Suc_right)
qed

section \<open>Reversal of a chain and the reverse dependency map\<close>

declare reverseLoop.simps [simp del]

lemma reverseLoop_length: "length (reverseLoop i j xs) = length xs"
proof (induction i j xs rule: reverseLoop.induct)
  case (1 i j chain)
  show ?case
  proof (cases "i < j")
    case True
    with 1 show ?thesis by (subst reverseLoop.simps) simp
  next
    case False
    then show ?thesis by (subst reverseLoop.simps) simp
  qed
qed

lemma reverseLoop_nth:
  "j < length xs \<Longrightarrow> k < length xs \<Longrightarrow>
   reverseLoop i j xs ! k = (if i \<le> k \<and> k \<le> j then xs ! (i + j - k) else xs ! k)"
proof (induction i j xs rule: reverseLoop.induct)
  case (1 i j chain)
  show ?case
  proof (cases "i < j")
    case True
    let ?chain' = "chain[i := chain ! j, j := chain ! i]"
    have "reverseLoop i j chain ! k = reverseLoop (i + 1) (j - 1) ?chain' ! k"
      using True by (subst reverseLoop.simps) simp
    also have "\<dots> = (if i + 1 \<le> k \<and> k \<le> j - 1 then ?chain' ! (i + 1 + (j - 1) - k) else ?chain' ! k)"
      using 1 True by simp
    also have "\<dots> = (if i \<le> k \<and> k \<le> j then chain ! (i + j - k) else chain ! k)"
      using True 1(2,3) by (auto simp: nth_list_update)
    finally show ?thesis .
  next
    case False
    then have "reverseLoop i j chain = chain" by (subst reverseLoop.simps) simp
    moreover have "i \<le> k \<and> k \<le> j \<Longrightarrow> i + j - k = k" using False by arith
    ultimately show ?thesis by simp
  qed
qed

lemma reverseChain_rev: "reverseChain chain = rev chain"
proof (cases "chain = []")
  case True
  then show ?thesis unfolding reverseChain_def by (subst reverseLoop.simps) simp
next
  case False
  show ?thesis
  proof (rule nth_equalityI)
    show "length (reverseChain chain) = length (rev chain)"
      by (simp add: reverseChain_def reverseLoop_length)
  next
    fix k assume "k < length (reverseChain chain)"
    then have k: "k < length chain" by (simp add: reverseChain_def reverseLoop_length)
    with False have "reverseLoop 0 (length chain - 1) chain ! k = chain ! (length chain - 1 - k)"
      by (subst reverseLoop_nth) auto
    with k show "reverseChain chain ! k = rev chain ! k"
      by (simp add: reverseChain_def rev_nth)
  qed
qed

lemma clean_error: "cleanDependencyName dep = Inl e \<Longrightarrow> e = IndexOutOfRange"
  by (simp add: cleanDependencyName_def split: list.splits)

lemma addDependencies_eq:
  "addDependencies name deps rd =
     (if \<exists>d\<in>set deps. isl (cleanDependencyName d) then Inl IndexOutOfRange
      else Inr (\<lambda>k. rd k @ map (\<lambda>_. name) (filter (\<lambda>d. cleanDependencyName d = Inr k) deps)))"
proof (induction deps arbitrary: rd)
  case Nil
  show ?case by simp
next
  case (Cons dep deps)
  show ?case
  proof (cases "cleanDependencyName dep")
    case (Inl e)
    with clean_error [OF Inl] show ?thesis by simp
  next
    case (Inr c)
    have "(\<lambda>k. (rd(c := rd c @ [name])) k @ map (\<lambda>_. name) (filter (\<lambda>d. cleanDependencyName d = Inr k) deps))
        = (\<lambda>k. rd k @ map (\<lambda>_. name) (filter (\<lambda>d. cleanDependencyName d = Inr k) (dep # deps)))"
      using Inr by (auto simp: fun_eq_iff)
    with Inr show ?thesis by (simp add: Cons.IH)
  qed
qed

lemma buildLoop_eq:
  "buildLoop pkgs rd =
     (if \<exists>p\<in>set pkgs. \<exists>d\<in>set (Dependencies p). isl (cleanDependencyName d)
      then Inl IndexOutOfRange
      else Inr (\<lambda>k. rd k @ concat (map (\<lambda>p. map (\<lambda>_. Name p)
              (filter (\<lambda>d. cleanDependencyName d = Inr k) (Dependencies p))) pkgs)))"
proof (induction pkgs arbitrary: rd)
  case Nil
  show ?case by simp
next
  case (Cons p pkgs)
  show ?case
  proof (cases "\<exists>d\<in>set (Dependencies p). isl (cleanDependencyName d)")
    case True
    then show ?thesis by (simp add: addDependencies_eq)
  next
    case False
    then show ?thesis by (simp add: addDependencies_eq Cons.IH)
  qed
qed

lemma dependsOn_eq:
  "\<forall>d\<in>set deps. \<not> isl (cleanDependencyName d) \<Longrightarrow>
   dependsOn pkgName deps = Inr (\<exists>d\<in>set deps. cleanDependencyName d = Inr pkgName)"
proof (induction deps)
  case Nil
  show ?case by simp
next
  case (Cons dep deps)
  then obtain c where "cleanDependencyName dep = Inr c"
    by (cases "cleanDependencyName dep") auto
  with Cons show ?case by auto
qed

lemma requiredByLoop_eq:
  "\<forall>p\<in>set pkgs. \<forall>d\<in>set (Dependencies p). \<not> isl (cleanDependencyName d) \<Longrightarrow>
   requiredByLoop pkgName pkgs acc =
     Inr (acc @ map Name (filter (\<lambda>p. \<exists>d\<in>set (Dependencies p). cleanDependencyName d = Inr pkgName) pkgs))"
proof (induction pkgs arbitrary: acc)
  case Nil
  show ?case by simp
next
  case (Cons p pkgs)
  then have "dependsOn pkgName (Dependencies p) =
      Inr (\<exists>d\<in>set (Dependencies p). cleanDependencyName d = Inr pkgName)"
    by (intro dependsOn_eq) simp
  with Cons show ?case by simp
qed

lemma set_map_filter_eq: "set (List.map_filter f xs) = {y. \<exists>x\<in>set xs. f x = Some y}"
  by (induction xs) (auto split: option.splits)

lemma set_rangeValues: "set ks = dom cache \<Longrightarrow> set (rangeValues ks cache) = ran cache"
  by (auto simp: rangeValues_def set_map_filter_eq ran_def)

lemma mset_rangeValues:
  "mset ks1 = mset ks2 \<Longrightarrow> mset (rangeValues ks1 cache) = mset (rangeValues ks2 cache)"
  by (simp add: rangeValues_def map_filter_def)

section \<open>Independence of the order of the map\<close>

lemma mset_concat_map_cong:
  assumes "mset xs = mset ys" and "\<forall>x\<in>set xs. mset (f x) = mset (g x)"
  shows "mset (concat (map f xs)) = mset (concat (map g ys))"
proof -
  have "mset (concat (map f xs)) = sum_mset (image_mset (\<lambda>x. mset (f x)) (mset xs))"
    by (simp add: mset_concat comp_def flip: sum_mset_sum_list)
  also have "\<dots> = sum_mset (image_mset (\<lambda>x. mset (g x)) (mset xs))"
    using assms(2) by (intro arg_cong [where f = sum_mset] image_mset_cong) simp
  also have "\<dots> = mset (concat (map g ys))"
    by (simp add: assms(1) mset_concat comp_def flip: sum_mset_sum_list)
  finally show ?thesis .
qed

lemma those_all_Some:
  "None \<notin> set (map g xs) \<Longrightarrow> those (map g xs) = Some (map (\<lambda>x. the (g x)) xs)"
  by (induction xs) (auto split: option.splits)

lemma those_perm:
  assumes "mset xs = mset ys"
    and "\<forall>x\<in>set xs. rel_option (\<lambda>a b. mset a = mset b) (g1 x) (g2 x)"
  shows "rel_option (\<lambda>a b. mset (concat a) = mset (concat b))
           (those (map g1 xs)) (those (map g2 ys))"
proof (cases "None \<in> set (map g1 xs)")
  case True
  then obtain x where x: "x \<in> set xs" and "g1 x = None" by auto
  with assms(2) have "g2 x = None" by (cases "g2 x") (auto dest!: bspec)
  moreover from x assms(1) have "x \<in> set ys" using mset_eq_setD by blast
  ultimately have "None \<in> set (map g2 ys)" by force
  then have "those (map g2 ys) = None" by (simp only: those_None_iff)
  moreover from True have "those (map g1 xs) = None" by (simp only: those_None_iff)
  ultimately show ?thesis by simp
next
  case False
  have sets: "set ys = set xs" using assms(1) mset_eq_setD by blast
  have "None \<notin> set (map g2 ys)"
  proof
    assume "None \<in> set (map g2 ys)"
    then obtain x where x: "x \<in> set xs" and "g2 x = None" using sets by auto
    with assms(2) have "g1 x = None" by (cases "g1 x") (auto dest!: bspec)
    with x False show False by force
  qed
  note t2 = those_all_Some [OF this]
  note t1 = those_all_Some [OF False]
  have "\<forall>x\<in>set xs. mset (the (g1 x)) = mset (the (g2 x))"
  proof
    fix x assume x: "x \<in> set xs"
    with False obtain a where a: "g1 x = Some a" by (cases "g1 x") force+
    with assms(2) x obtain b where "g2 x = Some b" "mset a = mset b"
      by (cases "g2 x") (auto dest!: bspec)
    with a show "mset (the (g1 x)) = mset (the (g2 x))" by simp
  qed
  from mset_concat_map_cong [OF assms(1) this] show ?thesis by (simp add: t1 t2)
qed

lemma dfs_perm:
  assumes "\<forall>k. mset (rd1 k) = mset (rd2 k)"
  shows "rel_option (\<lambda>a b. mset a = mset b)
           (map_option snd (dfsBackwards n cur path (v, []) cache rd1))
           (map_option snd (dfsBackwards n cur path (v, []) cache rd2))"
proof (induction n arbitrary: cur path v)
  case 0
  show ?case by (simp add: dfsBackwards.simps(1))
next
  case (Suc n)
  let ?g = "\<lambda>rd d. map_option snd (dfsBackwards n d (path @ [d]) (v(cur := True), []) cache rd)"
  have "rel_option (\<lambda>a b. mset (concat a) = mset (concat b))
      (those (map (?g rd1) (rd1 cur))) (those (map (?g rd2) (rd2 cur)))"
    using assms Suc.IH by (intro those_perm) simp_all
  then show ?case
    by (simp only: dfs_unfold) (auto simp: option.rel_map)
qed

lemma build_perm:
  assumes "mset ks1 = mset ks2"
  shows "rel_sum (=) (\<lambda>rd1 rd2. \<forall>k. mset (rd1 k) = mset (rd2 k))
           (buildReverseDependencyMap ks1 cache) (buildReverseDependencyMap ks2 cache)"
proof -
  have m: "mset (rangeValues ks1 cache) = mset (rangeValues ks2 cache)"
    by (rule mset_rangeValues [OF assms])
  then have s: "set (rangeValues ks1 cache) = set (rangeValues ks2 cache)"
    by (rule mset_eq_setD)
  show ?thesis
    unfolding buildReverseDependencyMap_def buildLoop_eq
    using s mset_concat_map_cong [OF m] by auto
qed

lemma rangeOrder_mset: "rangeOrder ks1 cache \<Longrightarrow> rangeOrder ks2 cache \<Longrightarrow> mset ks1 = mset ks2"
  by (simp add: rangeOrder_def set_eq_iff_mset_eq_distinct [symmetric])

lemma chains_perm:
  assumes "mset ks1 = mset ks2"
  shows "rel_option (rel_sum (=) (\<lambda>a b. mset a = mset b))
           (findInstallationChains n ks1 targetPkg cache)
           (findInstallationChains n ks2 targetPkg cache)"
proof -
  note b = build_perm [OF assms, of cache]
  show ?thesis
  proof (cases "buildReverseDependencyMap ks1 cache")
    case (Inl e)
    with b have "buildReverseDependencyMap ks2 cache = Inl e"
      by (cases "buildReverseDependencyMap ks2 cache") simp_all
    with Inl show ?thesis by (simp add: findInstallationChains_def)
  next
    case (Inr rd1)
    with b obtain rd2 where rd2: "buildReverseDependencyMap ks2 cache = Inr rd2"
      and m: "\<forall>k. mset (rd1 k) = mset (rd2 k)"
      by (cases "buildReverseDependencyMap ks2 cache") simp_all
    from dfs_perm [OF m, of n targetPkg "[targetPkg]" "\<lambda>_. False" cache]
    show ?thesis
      by (auto simp: findInstallationChains_def Inr rd2 option.rel_map
            elim!: option.rel_cases)
  qed
qed

section \<open>The example databases\<close>

lemma chains_single:
  assumes "mset ks1 = mset ks2"
    and "findInstallationChains n ks2 targetPkg cache = Some (Inr cs)" and "length cs \<le> 1"
  shows "findInstallationChains n ks1 targetPkg cache = Some (Inr cs)"
proof -
  from chains_perm [OF assms(1), of n targetPkg cache] assms(2)
  obtain cs1 where r: "findInstallationChains n ks1 targetPkg cache = Some (Inr cs1)"
    and m: "mset cs1 = mset cs"
    by (auto elim!: option.rel_cases rel_sum.cases)
  from assms(3) have "cs = [] \<or> (\<exists>c. cs = [c])" by (cases cs) auto
  with m have "cs1 = cs" by auto
  with r show ?thesis by simp
qed

lemma rangeOrder_chainIndex: "rangeOrder [''A'', ''B'', ''C''] chainIndex"
  by (auto simp: rangeOrder_def chainIndex_def)

lemma rangeOrder_claimedIndex: "rangeOrder [''A'', ''B'', ''C''] claimedIndex"
  by (auto simp: rangeOrder_def claimedIndex_def)

lemma rangeOrder_cyclicIndex: "rangeOrder [''M'', ''N''] cyclicIndex"
  by (auto simp: rangeOrder_def cyclicIndex_def)

lemma diamond_order1: "rangeOrder [''X'', ''Y'', ''Z''] diamondIndex"
  by (auto simp: rangeOrder_def diamondIndex_def)

lemma diamond_order2: "rangeOrder [''Y'', ''X'', ''Z''] diamondIndex"
  by (auto simp: rangeOrder_def diamondIndex_def)

lemma chainIndex_reverseDeps:
  "buildReverseDependencyMap [''A'', ''B'', ''C''] chainIndex
     = Inr ((\<lambda>_. [])(''B'' := [''A''], ''C'' := [''B'']))"
  by (simp add: chainIndex_def buildReverseDependencyMap_def
      rangeValues_def cleanDependencyName_def FieldsFunc_def isSeparator_def)

lemma chainIndex_chains:
  "findInstallationChains (Suc (Suc (Suc n))) [''A'', ''B'', ''C''] ''C'' chainIndex =
     Some (Inr [[''A'', ''B'', ''C'']])"
  by (simp add: chainIndex_def findInstallationChains_def buildReverseDependencyMap_def
      rangeValues_def cleanDependencyName_def FieldsFunc_def isSeparator_def
      explicitlyInstalled_def installedAsDependency_def dfs_unfold reverseChain_rev)

lemma claimedIndex_chains:
  "findInstallationChains (Suc n) [''A'', ''B'', ''C''] ''C'' claimedIndex = Some (Inr [])"
  by (simp add: claimedIndex_def findInstallationChains_def buildReverseDependencyMap_def
      rangeValues_def cleanDependencyName_def FieldsFunc_def isSeparator_def
      explicitlyInstalled_def installedAsDependency_def dfs_unfold reverseChain_rev)

lemma cyclicIndex_chains:
  "findInstallationChains (Suc (Suc (Suc n))) [''M'', ''N''] ''M'' cyclicIndex = Some (Inr [])"
  by (simp add: cyclicIndex_def findInstallationChains_def buildReverseDependencyMap_def
      rangeValues_def cleanDependencyName_def FieldsFunc_def isSeparator_def
      explicitlyInstalled_def installedAsDependency_def dfs_unfold reverseChain_rev)

lemma rootedCycle_chains:
  "findInstallationChains 3 [''E'', ''M'', ''N''] ''M'' rootedCycleIndex = Some (Inr [[''E'', ''M'']])"
  by (simp add: rootedCycleIndex_def findInstallationChains_def buildReverseDependencyMap_def
      rangeValues_def cleanDependencyName_def FieldsFunc_def isSeparator_def numeral_3_eq_3
      explicitlyInstalled_def installedAsDependency_def dfs_unfold reverseChain_rev)

lemma diamond_chains1:
  "findInstallationChains 2 [''X'', ''Y'', ''Z''] ''Z'' diamondIndex
     = Some (Inr [[''X'', ''Z''], [''Y'', ''Z'']])"
  by (simp add: diamondIndex_def findInstallationChains_def buildReverseDependencyMap_def
      rangeValues_def cleanDependencyName_def FieldsFunc_def isSeparator_def numeral_2_eq_2
      explicitlyInstalled_def installedAsDependency_def dfs_unfold reverseChain_rev)

lemma diamond_chains2:
  "findInstallationChains 2 [''Y'', ''X'', ''Z''] ''Z'' diamondIndex
     = Some (Inr [[''Y'', ''Z''], [''X'', ''Z'']])"
  by (simp add: diamondIndex_def findInstallationChains_def buildReverseDependencyMap_def
      rangeValues_def cleanDependencyName_def FieldsFunc_def isSeparator_def numeral_2_eq_2
      explicitlyInstalled_def installedAsDependency_def dfs_unfold reverseChain_rev)

lemma diamond_reverseDeps:
  "buildReverseDependencyMap [''X'', ''Y'', ''Z''] diamondIndex
     = Inr ((\<lambda>_. [])(''Z'' := [''X'', ''Y'']))"
  by (simp add: diamondIndex_def buildReverseDependencyMap_def
      rangeValues_def cleanDependencyName_def FieldsFunc_def isSeparator_def)

lemma twoPackageStore_loads:
  "loadAllPackages twoPackageStore =
     Inr [''a'' \<mapsto> \<lparr>Name = ''a'', Version = ''1.0'', InstallReason = installedAsDependency,
                     Dependencies = [], RequiredBy = []\<rparr>,
          ''b'' \<mapsto> \<lparr>Name = ''b'', Version = ''2.0'', InstallReason = explicitlyInstalled,
                     Dependencies = [''a>=1.0''], RequiredBy = []\<rparr>]"
  by (simp add: loadAllPackages_def twoPackageStore_def parseDescFile_def descPath_def
      pacmanLocalDBPath_def TrimSpace_def HasPrefix_def HasSuffix_def Trim_def spaceCodes_def)

lemma duplicateStore_loads:
  "loadAllPackages duplicateStore =
     Inr [''a'' \<mapsto> \<lparr>Name = ''a'', Version = ''2.0'', InstallReason = explicitlyInstalled,
                     Dependencies = [], RequiredBy = []\<rparr>]"
  by (simp add: loadAllPackages_def duplicateStore_def parseDescFile_def descPath_def
      pacmanLocalDBPath_def TrimSpace_def HasPrefix_def HasSuffix_def Trim_def spaceCodes_def)

lemma twoPackage_info:
  "getPackageInfo [''b'', ''a''] ''a''
     [''a'' \<mapsto> \<lparr>Name = ''a'', Version = ''1.0'', InstallReason = installedAsDependency,
                 Dependencies = [], RequiredBy = []\<rparr>,
      ''b'' \<mapsto> \<lparr>Name = ''b'', Version = ''2.0'', InstallReason = explicitlyInstalled,
                 Dependencies = [''a>=1.0''], RequiredBy = []\<rparr>]
   = Inr (\<lparr>Name = ''a'', Version = ''1.0'', InstallReason = installedAsDependency,
            Dependencies = [], RequiredBy = [''b'']\<rparr>,
          [''a'' \<mapsto> \<lparr>Name = ''a'', Version = ''1.0'', InstallReason = installedAsDependency,
                 Dependencies = [], RequiredBy = [''b'']\<rparr>,
           ''b'' \<mapsto> \<lparr>Name = ''b'', Version = ''2.0'', InstallReason = explicitlyInstalled,
                 Dependencies = [''a>=1.0''], RequiredBy = []\<rparr>])"
  by (auto simp: getPackageInfo_def findRequiredBy_def rangeValues_def
      cleanDependencyName_def FieldsFunc_def isSeparator_def Let_def fun_eq_iff)

section \<open>Termination and the keys of the index\<close>

lemma build_names:
  assumes "buildReverseDependencyMap ks cache = Inr reverseDeps"
  shows "set (reverseDeps k) \<subseteq> Name ` set (rangeValues ks cache)"
  using assms
  by (auto simp: buildReverseDependencyMap_def buildLoop_eq split: if_splits)

lemma chains_return:
  "\<exists>n r. \<forall>k. findInstallationChains (n + k) ks targetPkg cache = Some r"
proof (cases "buildReverseDependencyMap ks cache")
  case (Inl e)
  then show ?thesis by (simp add: findInstallationChains_def)
next
  case (Inr reverseDeps)
  let ?S = "insert targetPkg (Name ` set (rangeValues ks cache))"
  have "finite ?S" by simp
  moreover have "\<forall>k. set (reverseDeps k) \<subseteq> ?S" using build_names [OF Inr] by blast
  moreover have "targetPkg \<in> ?S" by simp
  moreover have "{x \<in> ?S. \<not> (\<lambda>_. False) x} = ?S" by blast
  then have "card {x \<in> ?S. \<not> (\<lambda>_. False) x} < Suc (card ?S)" by (simp only: lessI)
  ultimately obtain new where
    "dfsBackwards (Suc (card ?S)) targetPkg [targetPkg] (\<lambda>_. False, []) cache reverseDeps
       = Some (\<lambda>_. False, new)"
    using dfs_returns [of ?S reverseDeps targetPkg "\<lambda>_. False" "Suc (card ?S)" "[targetPkg]" cache]
    by blast
  from dfs_deeper_add [OF this]
  have "\<forall>k. findInstallationChains (Suc (card ?S) + k) ks targetPkg cache
      = Some (Inr (map reverseChain new))"
    by (simp add: findInstallationChains_def Inr)
  then show ?thesis by blast
qed

lemma loadEntries_keys:
  "(\<forall>k p. cache k = Some p \<longrightarrow> Name p = k) \<Longrightarrow>
   loadEntries store entries cache k = Some p \<Longrightarrow> Name p = k"
proof (induction entries arbitrary: cache)
  case Nil
  then show ?case by simp
next
  case (Cons entry entries)
  show ?case
  proof (cases "IsDir entry")
    case False
    with Cons show ?thesis by simp
  next
    case True
    show ?thesis
    proof (cases "parseDescFile store (descPath (entryName entry))")
      case (Inl e)
      with True Cons show ?thesis by simp
    next
      case (Inr pkg)
      have inv: "\<forall>k p. (cache(Name pkg \<mapsto> pkg)) k = Some p \<longrightarrow> Name p = k"
        using Cons.prems(1) by auto
      have "loadEntries store (entry # entries) cache =
          loadEntries store entries (cache(Name pkg \<mapsto> pkg))"
        using True Inr by simp
      with Cons.prems(2) have "loadEntries store entries (cache(Name pkg \<mapsto> pkg)) k = Some p"
        by (simp only:)
      then show ?thesis by (rule Cons.IH [OF inv])
    qed
  qed
qed

lemma find_append_eq:
  "find P (xs @ ys) = (case find P xs of None \<Rightarrow> find P ys | Some x \<Rightarrow> Some x)"
  by (induction xs) simp_all

lemma loadEntries_eq:
  "loadEntries store entries cache k =
     (case find (\<lambda>pkg. Name pkg = k)
             (rev (List.map_filter
                (\<lambda>entry. if IsDir entry
                   then (case parseDescFile store (descPath (entryName entry)) of
                           Inl e \<Rightarrow> None | Inr pkg \<Rightarrow> Some pkg)
                   else None) entries)) of
        None \<Rightarrow> cache k
      | Some pkg \<Rightarrow> Some pkg)"
proof (induction entries arbitrary: cache)
  case Nil
  show ?case by simp
next
  case (Cons entry entries)
  show ?case
  proof (cases "IsDir entry")
    case False
    then show ?thesis by (simp add: Cons.IH)
  next
    case True
    show ?thesis
    proof (cases "parseDescFile store (descPath (entryName entry))")
      case (Inl e)
      with True show ?thesis by (simp add: Cons.IH)
    next
      case (Inr pkg)
      with True show ?thesis
        by (simp add: Cons.IH find_append_eq split: option.splits)
    qed
  qed
qed

section \<open>The claims about dependency names\<close>

text \<open>
  Claim C5, as the specification states it: for every specifier, the cleaned name is the
  substring up to the first \<^verbatim>\<open><\<close>, \<^verbatim>\<open>>\<close>, \<^verbatim>\<open>=\<close> or whitespace.  The code skips
  the separators at the beginning of the specifier first: for \<^verbatim>\<open>=1.5\<close> it returns
  \<^verbatim>\<open>1.5\<close>, and the substring up to the first separator is empty.
\<close>

theorem cleanDependencyName_not_prefix:
  "cleanDependencyName ''=1.5'' = Inr ''1.5'' \<and> spec_dependencyName ''=1.5'' = ''''"
  by (simp add: cleanDependencyName_def FieldsFunc_def isSeparator_def
        spec_dependencyName_def spec_isSeparator_def)

text \<open>
  Claim C5, amended: for every specifier with a character other than \<^verbatim>\<open><\<close>, \<^verbatim>\<open>>\<close>,
  \<^verbatim>\<open>=\<close> and the space, \<^verbatim>\<open>cleanDependencyName\<close> returns the specifier without the
  separators at its beginning, up to and not including the next \<^verbatim>\<open><\<close>, \<^verbatim>\<open>>\<close>,
  \<^verbatim>\<open>=\<close> or space; \<^verbatim>\<open>libfoo>=1.0\<close>, \<^verbatim>\<open>libfoo<2.0\<close>, \<^verbatim>\<open>libfoo=1.5\<close> and
  \<^verbatim>\<open>libfoo\<close> all give \<^verbatim>\<open>libfoo\<close>.
\<close>

theorem cleanDependencyName_first_field:
  "(\<forall>dep. (\<exists>c\<in>set dep. \<not> isSeparator c) \<longrightarrow>
      cleanDependencyName dep =
        Inr (takeWhile (\<lambda>c. \<not> isSeparator c) (dropWhile isSeparator dep)))
   \<and> cleanDependencyName ''libfoo>=1.0'' = Inr ''libfoo''
   \<and> cleanDependencyName ''libfoo<2.0'' = Inr ''libfoo''
   \<and> cleanDependencyName ''libfoo=1.5'' = Inr ''libfoo''
   \<and> cleanDependencyName ''libfoo'' = Inr ''libfoo''"
proof (intro conjI allI impI)
  fix dep assume "\<exists>c\<in>set dep. \<not> isSeparator c"
  then show "cleanDependencyName dep =
      Inr (takeWhile (\<lambda>c. \<not> isSeparator c) (dropWhile isSeparator dep))"
    by (rule cleanDependencyName_returns)
qed (simp_all add: cleanDependencyName_def FieldsFunc_def isSeparator_def)

text \<open>The amended claim at the specifier \<^verbatim>\<open>libfoo >= 1.0\<close>, which has a separator in it.\<close>

theorem cleanDependencyName_first_field_witness:
  "(\<exists>c\<in>set ''libfoo >= 1.0''. \<not> isSeparator c) \<and>
   cleanDependencyName ''libfoo >= 1.0'' = Inr ''libfoo''"
proof -
  have h: "\<exists>c\<in>set ''libfoo >= 1.0''. \<not> isSeparator c" by (simp add: isSeparator_def)
  from cleanDependencyName_first_field
  have "(\<exists>c\<in>set ''libfoo >= 1.0''. \<not> isSeparator c) \<longrightarrow>
      cleanDependencyName ''libfoo >= 1.0'' =
        Inr (takeWhile (\<lambda>c. \<not> isSeparator c) (dropWhile isSeparator ''libfoo >= 1.0''))"
    by blast
  with h show ?thesis by (simp add: isSeparator_def)
qed

text \<open>
  Claim C10 says that \<^verbatim>\<open>cleanDependencyName\<close> never panics, also on the empty string
  and on a string of separators only.  The code indexes element 0 of an empty list of
  fields there: a \<^verbatim>\<open>%DEPENDS%\<close> line that is only \<^verbatim>\<open>=\<close> is read into the index as
  it is, and then \<^verbatim>\<open>buildReverseDependencyMap\<close>, \<^verbatim>\<open>findRequiredBy\<close> and
  \<^verbatim>\<open>findInstallationChains\<close> panic.
\<close>

theorem cleanDependencyName_index_out_of_range:
  "cleanDependencyName ''='' = Inl IndexOutOfRange
   \<and> cleanDependencyName '''' = Inl IndexOutOfRange
   \<and> (case loadAllPackages brokenStore of
        Inl e \<Rightarrow> False
      | Inr cache \<Rightarrow>
          map_option Dependencies (cache ''foo'') = Some [''='']
          \<and> buildReverseDependencyMap [''foo''] cache = Inl IndexOutOfRange
          \<and> findRequiredBy [''foo''] ''bar'' cache = Inl IndexOutOfRange
          \<and> findInstallationChains 1 [''foo''] ''foo'' cache = Some (Inl IndexOutOfRange))"
  by (simp add: cleanDependencyName_def FieldsFunc_def isSeparator_def
        loadAllPackages_def brokenStore_def parseDescFile_def descPath_def pacmanLocalDBPath_def
        TrimSpace_def HasPrefix_def HasSuffix_def Trim_def spaceCodes_def
        buildReverseDependencyMap_def findRequiredBy_def findInstallationChains_def
        rangeValues_def)

section \<open>The claims about installation chains\<close>

text \<open>
  Claim C1, as the specification states it: for a package of the index whose install
  reason is explicit, \<^verbatim>\<open>findInstallationChains\<close> returns no chain.  In the scenario of
  the specification the explicit package \<open>A\<close> is in the index, and the traversal that
  starts at \<open>A\<close> records the path \<open>[A]\<close> at once.
\<close>

theorem explicit_target_has_chain:
  "map_option InstallReason (claimedIndex ''A'') = Some explicitlyInstalled
   \<and> findInstallationChains 1 [''A'', ''B'', ''C''] ''A'' claimedIndex = Some (Inr [[''A'']])"
  by (simp add: claimedIndex_def findInstallationChains_def buildReverseDependencyMap_def
      rangeValues_def cleanDependencyName_def FieldsFunc_def isSeparator_def
      dfs_unfold reverseChain_rev)

text \<open>
  Claim C1, amended: for every package \<open>P\<close> of the index whose install reason is explicit,
  \<^verbatim>\<open>findInstallationChains\<close> returns exactly one chain, \<open>[P]\<close>, whenever the reverse
  dependency map is built without a panic, with any positive bound on the depth of the
  calls.
\<close>

theorem findInstallationChains_explicit_target:
  assumes "cache P = Some pkg" and "InstallReason pkg = explicitlyInstalled"
    and "buildReverseDependencyMap ks cache = Inr reverseDeps"
  shows "findInstallationChains (Suc depth) ks P cache = Some (Inr [[P]])"
  using assms by (simp add: findInstallationChains_def dfs_unfold reverseChain_rev)

text \<open>The amended claim C1 at the explicit package \<open>A\<close> of the index \<^const>\<open>chainIndex\<close>.\<close>

theorem findInstallationChains_explicit_target_witness:
  "chainIndex ''A'' = Some \<lparr>Name = ''A'', Version = ''1'', InstallReason = explicitlyInstalled,
        Dependencies = [''B''], RequiredBy = []\<rparr>
   \<and> InstallReason \<lparr>Name = ''A'', Version = ''1'', InstallReason = explicitlyInstalled,
        Dependencies = [''B''], RequiredBy = []\<rparr> = explicitlyInstalled
   \<and> buildReverseDependencyMap [''A'', ''B'', ''C''] chainIndex
        = Inr ((\<lambda>_. [])(''B'' := [''A''], ''C'' := [''B'']))
   \<and> findInstallationChains (Suc 4) [''A'', ''B'', ''C''] ''A'' chainIndex = Some (Inr [[''A'']])"
proof -
  have a: "chainIndex ''A'' = Some \<lparr>Name = ''A'', Version = ''1'',
      InstallReason = explicitlyInstalled, Dependencies = [''B''], RequiredBy = []\<rparr>"
    by (simp add: chainIndex_def)
  have b: "InstallReason \<lparr>Name = ''A'', Version = ''1'', InstallReason = explicitlyInstalled,
      Dependencies = [''B''], RequiredBy = []\<rparr> = explicitlyInstalled"
    by simp
  from findInstallationChains_explicit_target [OF a b chainIndex_reverseDeps, of 4]
    a b chainIndex_reverseDeps
  show ?thesis by simp
qed

text \<open>
  Claim C2, as the specification states it: in the index of \<open>A\<close> (explicit, no
  dependency), \<open>B\<close> (depends on \<open>A\<close>) and \<open>C\<close> (depends on \<open>B\<close>), the chains of \<open>C\<close>
  are exactly \<open>[A, B, C]\<close>.  No package depends on \<open>C\<close> there, so the traversal from
  \<open>C\<close> finds nothing.
\<close>

theorem claimed_scenario_no_chain:
  "rangeOrder [''A'', ''B'', ''C''] claimedIndex
   \<and> findInstallationChains 3 [''A'', ''B'', ''C''] ''C'' claimedIndex = Some (Inr [])"
  using claimedIndex_chains [of 2] rangeOrder_claimedIndex by (simp add: numeral_3_eq_3)

text \<open>
  Claim C2, amended: in the index of \<open>A\<close> (explicit, depends on \<open>B\<close>), \<open>B\<close> (depends on
  \<open>C\<close>) and \<open>C\<close> (no dependency), \<^verbatim>\<open>findInstallationChains\<close> of \<open>C\<close> returns exactly
  one chain, \<open>[A, B, C]\<close>, in whatever order the map is visited and with every bound of
  at least 3 on the depth; in the index as the claim states it, it returns no chain.
\<close>

theorem findInstallationChains_chain_scenario:
  "(rangeOrder ks chainIndex \<longrightarrow>
      findInstallationChains (3 + n) ks ''C'' chainIndex = Some (Inr [[''A'', ''B'', ''C'']]))
   \<and> (rangeOrder ks' claimedIndex \<longrightarrow>
      findInstallationChains (1 + n) ks' ''C'' claimedIndex = Some (Inr []))"
proof (intro conjI impI)
  assume "rangeOrder ks chainIndex"
  then have "mset ks = mset [''A'', ''B'', ''C'']"
    using rangeOrder_chainIndex by (rule rangeOrder_mset)
  from chains_single [OF this chainIndex_chains [of n]]
  show "findInstallationChains (3 + n) ks ''C'' chainIndex = Some (Inr [[''A'', ''B'', ''C'']])"
    by (simp add: numeral_3_eq_3)
next
  assume "rangeOrder ks' claimedIndex"
  then have "mset ks' = mset [''A'', ''B'', ''C'']"
    using rangeOrder_claimedIndex by (rule rangeOrder_mset)
  from chains_single [OF this claimedIndex_chains [of n]]
  show "findInstallationChains (1 + n) ks' ''C'' claimedIndex = Some (Inr [])"
    by simp
qed

text \<open>The amended claim C2 with two other orders of the keys.\<close>

theorem findInstallationChains_chain_scenario_witness:
  "rangeOrder [''C'', ''A'', ''B''] chainIndex
   \<and> findInstallationChains 3 [''C'', ''A'', ''B''] ''C'' chainIndex
        = Some (Inr [[''A'', ''B'', ''C'']])
   \<and> rangeOrder [''B'', ''C'', ''A''] claimedIndex
   \<and> findInstallationChains 1 [''B'', ''C'', ''A''] ''C'' claimedIndex = Some (Inr [])"
proof -
  have a: "rangeOrder [''C'', ''A'', ''B''] chainIndex"
    by (auto simp: rangeOrder_def chainIndex_def)
  have b: "rangeOrder [''B'', ''C'', ''A''] claimedIndex"
    by (auto simp: rangeOrder_def claimedIndex_def)
  from findInstallationChains_chain_scenario
    [of "[''C'', ''A'', ''B'']" 0 "[''B'', ''C'', ''A'']"] a b
  show ?thesis by simp
qed

text \<open>
  Claim C3: for every index and every target, no package name occurs twice in a chain
  that \<^verbatim>\<open>findInstallationChains\<close> returns, whether the reverse dependencies have a cycle
  or not; and there is a depth of the nested calls from which it does return (or
  panics while it builds the reverse dependency map).
\<close>

theorem findInstallationChains_simple_paths:
  "(\<forall>depth result.
      findInstallationChains depth ks targetPkg cache = Some (Inr result) \<longrightarrow>
      (\<forall>chain\<in>set result. distinct chain))
   \<and> (\<exists>n r. \<forall>k. findInstallationChains (n + k) ks targetPkg cache = Some r)"
proof (intro conjI allI impI)
  fix depth result
  assume "findInstallationChains depth ks targetPkg cache = Some (Inr result)"
  then obtain reverseDeps visited allChains where
    d: "dfsBackwards depth targetPkg [targetPkg] (\<lambda>_. False, []) cache reverseDeps
          = Some (visited, allChains)"
    and c: "result = map reverseChain allChains"
    by (auto simp: findInstallationChains_def split: sum.splits option.splits)
  have "\<forall>chain\<in>set allChains. distinct chain"
    by (rule dfs_distinct [OF d, of "[]"]) simp_all
  with c show "\<forall>chain\<in>set result. distinct chain" by (simp add: reverseChain_rev)
next
  show "\<exists>n r. \<forall>k. findInstallationChains (n + k) ks targetPkg cache = Some r"
    by (rule chains_return)
qed

text \<open>Claim C3 in an index where \<open>M\<close> and \<open>N\<close> depend on each other and \<open>E\<close> needs \<open>M\<close>.\<close>

theorem findInstallationChains_simple_paths_witness:
  "findInstallationChains 3 [''E'', ''M'', ''N''] ''M'' rootedCycleIndex
     = Some (Inr [[''E'', ''M'']])
   \<and> distinct [''E'', ''M'']"
proof -
  from findInstallationChains_simple_paths
    [of "[''E'', ''M'', ''N'']" "''M''" rootedCycleIndex] rootedCycle_chains
  have "\<forall>chain\<in>set [[''E'', ''M'']]. distinct chain" by blast
  with rootedCycle_chains show ?thesis by simp
qed

text \<open>
  Claim C4: \<^verbatim>\<open>findInstallationChains\<close> terminates on every index, cyclic or not: there
  is a depth of nested calls within which it returns or panics, and a larger bound
  changes nothing.  In the index where \<open>M\<close> and \<open>N\<close> depend on each other and neither
  is explicit it returns no chain.
\<close>

theorem findInstallationChains_terminates:
  "(\<exists>n r. \<forall>k. findInstallationChains (n + k) ks targetPkg cache = Some r)
   \<and> (rangeOrder ks' cyclicIndex \<longrightarrow>
        (\<forall>k. findInstallationChains (3 + k) ks' ''M'' cyclicIndex = Some (Inr [])))"
proof (intro conjI impI allI)
  show "\<exists>n r. \<forall>k. findInstallationChains (n + k) ks targetPkg cache = Some r"
    by (rule chains_return)
next
  fix k assume "rangeOrder ks' cyclicIndex"
  then have "mset ks' = mset [''M'', ''N'']"
    using rangeOrder_cyclicIndex by (rule rangeOrder_mset)
  from chains_single [OF this cyclicIndex_chains [of k]]
  show "findInstallationChains (3 + k) ks' ''M'' cyclicIndex = Some (Inr [])"
    by (simp add: numeral_3_eq_3)
qed

text \<open>Claim C4 in the cyclic index, visited in the order \<open>N\<close>, \<open>M\<close>.\<close>

theorem findInstallationChains_terminates_witness:
  "rangeOrder [''N'', ''M''] cyclicIndex
   \<and> findInstallationChains 3 [''N'', ''M''] ''M'' cyclicIndex = Some (Inr [])"
proof -
  have a: "rangeOrder [''N'', ''M''] cyclicIndex"
    by (auto simp: rangeOrder_def cyclicIndex_def)
  from findInstallationChains_terminates [of _ _ _ "[''N'', ''M'']"] a
  have "\<forall>k. findInstallationChains (3 + k) [''N'', ''M''] ''M'' cyclicIndex = Some (Inr [])"
    by blast
  from this [rule_format, of 0] a show ?thesis by simp
qed

text \<open>
  Claim C9, as the specification states it: for a fixed index and target, two runs of
  \<^verbatim>\<open>findInstallationChains\<close> return the same chains in the same order.  Two runs may
  visit the map of the index in two orders, and then the chains come in two orders.
\<close>

theorem findInstallationChains_order_differs:
  "rangeOrder [''X'', ''Y'', ''Z''] diamondIndex \<and> rangeOrder [''Y'', ''X'', ''Z''] diamondIndex
   \<and> findInstallationChains 2 [''X'', ''Y'', ''Z''] ''Z'' diamondIndex
        = Some (Inr [[''X'', ''Z''], [''Y'', ''Z'']])
   \<and> findInstallationChains 2 [''Y'', ''X'', ''Z''] ''Z'' diamondIndex
        = Some (Inr [[''Y'', ''Z''], [''X'', ''Z'']])
   \<and> findInstallationChains 2 [''X'', ''Y'', ''Z''] ''Z'' diamondIndex
        \<noteq> findInstallationChains 2 [''Y'', ''X'', ''Z''] ''Z'' diamondIndex"
  using diamond_order1 diamond_order2 diamond_chains1 diamond_chains2 by simp

text \<open>
  Claim C9, amended: for a fixed index and target, two runs of
  \<^verbatim>\<open>findInstallationChains\<close> that visit the map in two orders both run out of depth,
  or both panic, or both return, and then they return the same chains, each as many
  times, in an order that may differ.
\<close>

theorem findInstallationChains_same_chains:
  assumes "rangeOrder ks1 cache" and "rangeOrder ks2 cache"
  shows "(findInstallationChains depth ks1 targetPkg cache = None
            \<longleftrightarrow> findInstallationChains depth ks2 targetPkg cache = None)
    \<and> (\<forall>e. findInstallationChains depth ks1 targetPkg cache = Some (Inl e)
            \<longleftrightarrow> findInstallationChains depth ks2 targetPkg cache = Some (Inl e))
    \<and> (\<forall>result1. findInstallationChains depth ks1 targetPkg cache = Some (Inr result1) \<longrightarrow>
          (\<exists>result2. findInstallationChains depth ks2 targetPkg cache = Some (Inr result2)
             \<and> mset result2 = mset result1))"
proof -
  from assms have "mset ks1 = mset ks2" by (rule rangeOrder_mset)
  from chains_perm [OF this, of depth targetPkg cache] show ?thesis
    by (auto elim!: option.rel_cases rel_sum.cases)
qed

text \<open>The amended claim C9 for the two orders of the counterexample.\<close>

theorem findInstallationChains_same_chains_witness:
  "rangeOrder [''X'', ''Y'', ''Z''] diamondIndex \<and> rangeOrder [''Y'', ''X'', ''Z''] diamondIndex
   \<and> findInstallationChains 2 [''X'', ''Y'', ''Z''] ''Z'' diamondIndex
        = Some (Inr [[''X'', ''Z''], [''Y'', ''Z'']])
   \<and> (\<exists>result2. findInstallationChains 2 [''Y'', ''X'', ''Z''] ''Z'' diamondIndex
           = Some (Inr result2)
         \<and> mset result2 = mset [[''X'', ''Z''], [''Y'', ''Z'']])"
  using findInstallationChains_same_chains [OF diamond_order1 diamond_order2, of 2 "''Z''"]
    diamond_order1 diamond_order2 diamond_chains1 by simp

section \<open>The claims about the index\<close>

text \<open>
  Claim C6, as the specification states it: every key of the index that
  \<^verbatim>\<open>loadAllPackages\<close> builds is a non-empty string, and a record without a name is
  not in the index.  A \<^verbatim>\<open>desc\<close> file without a \<^verbatim>\<open>%NAME%\<close> section is parsed
  without error and its record is stored under the empty key.
\<close>

theorem loadAllPackages_empty_key:
  "(case loadAllPackages namelessStore of
      Inl e \<Rightarrow> False
    | Inr cache \<Rightarrow>
        map_option Name (cache '''') = Some ''''
        \<and> map_option Version (cache '''') = Some ''1.0'')"
  by (simp add: loadAllPackages_def namelessStore_def parseDescFile_def descPath_def
      pacmanLocalDBPath_def TrimSpace_def HasPrefix_def HasSuffix_def Trim_def spaceCodes_def)

text \<open>
  Claim C6, amended: every key of the index that \<^verbatim>\<open>loadAllPackages\<close> builds is equal
  to the \<^verbatim>\<open>Name\<close> field of the record it maps to, and the key may be the empty
  string.  The index holds, under each name that the \<^verbatim>\<open>desc\<close> file of a directory
  gives when it is parsed without error (the empty name when the file has none), the
  record of the last such directory in the order of \<^verbatim>\<open>os.ReadDir\<close>, and nothing else:
  the record of a later directory replaces that of an earlier one with the same name,
  and an entry that is not a directory, or whose \<^verbatim>\<open>desc\<close> file cannot be opened or
  scanned, leaves no record.
\<close>

theorem loadAllPackages_keys:
  assumes "loadAllPackages store = Inr cache"
  shows "(\<forall>k p. cache k = Some p \<longrightarrow> Name p = k)
    \<and> (\<exists>entries. ReadDir store = Inr entries
         \<and> (\<forall>k. cache k =
               find (\<lambda>pkg. Name pkg = k)
                 (rev (List.map_filter
                    (\<lambda>entry. if IsDir entry
                       then (case parseDescFile store (descPath (entryName entry)) of
                               Inl e \<Rightarrow> None | Inr pkg \<Rightarrow> Some pkg)
                       else None) entries))))"
proof -
  from assms obtain entries where r: "ReadDir store = Inr entries"
    and c: "cache = loadEntries store entries Map.empty"
    by (auto simp: loadAllPackages_def split: sum.splits)
  have keys: "\<forall>k p. cache k = Some p \<longrightarrow> Name p = k"
  proof (intro allI impI)
    fix k p assume "cache k = Some p"
    then have "loadEntries store entries Map.empty k = Some p" by (simp only: c)
    then show "Name p = k" by (rule loadEntries_keys [rotated]) simp
  qed
  have "\<forall>k. cache k =
      find (\<lambda>pkg. Name pkg = k)
        (rev (List.map_filter
           (\<lambda>entry. if IsDir entry
              then (case parseDescFile store (descPath (entryName entry)) of
                      Inl e \<Rightarrow> None | Inr pkg \<Rightarrow> Some pkg)
              else None) entries))"
    unfolding c by (simp add: loadEntries_eq split: option.splits)
  with keys r show ?thesis by blast
qed

text \<open>
  The amended claim C6 for the database \<^const>\<open>duplicateStore\<close>: the index has the one
  key \<open>a\<close>, with the record of the later of the two directories of that name.
\<close>

theorem loadAllPackages_keys_witness:
  "loadAllPackages duplicateStore =
     Inr [''a'' \<mapsto> \<lparr>Name = ''a'', Version = ''2.0'', InstallReason = explicitlyInstalled,
                     Dependencies = [], RequiredBy = []\<rparr>]
   \<and> find (\<lambda>pkg. Name pkg = ''a'')
        (rev (List.map_filter
           (\<lambda>entry. if IsDir entry
              then (case parseDescFile duplicateStore (descPath (entryName entry)) of
                      Inl e \<Rightarrow> None | Inr pkg \<Rightarrow> Some pkg)
              else None)
           [\<lparr>entryName = ''ALPM_DB_VERSION'', IsDir = False\<rparr>,
            \<lparr>entryName = ''a-1.0'', IsDir = True\<rparr>,
            \<lparr>entryName = ''a-2.0'', IsDir = True\<rparr>,
            \<lparr>entryName = ''c-3.0'', IsDir = True\<rparr>]))
      = Some \<lparr>Name = ''a'', Version = ''2.0'', InstallReason = explicitlyInstalled,
               Dependencies = [], RequiredBy = []\<rparr>"
proof -
  from loadAllPackages_keys [OF duplicateStore_loads]
  obtain entries where "ReadDir duplicateStore = Inr entries"
    and c: "\<forall>k. [''a'' \<mapsto> \<lparr>Name = ''a'', Version = ''2.0'',
                InstallReason = explicitlyInstalled, Dependencies = [], RequiredBy = []\<rparr>] k =
        find (\<lambda>pkg. Name pkg = k)
          (rev (List.map_filter
             (\<lambda>entry. if IsDir entry
                then (case parseDescFile duplicateStore (descPath (entryName entry)) of
                        Inl e \<Rightarrow> None | Inr pkg \<Rightarrow> Some pkg)
                else None) entries))"
    by blast
  then have e: "entries = [\<lparr>entryName = ''ALPM_DB_VERSION'', IsDir = False\<rparr>,
            \<lparr>entryName = ''a-1.0'', IsDir = True\<rparr>,
            \<lparr>entryName = ''a-2.0'', IsDir = True\<rparr>,
            \<lparr>entryName = ''c-3.0'', IsDir = True\<rparr>]"
    by (simp add: duplicateStore_def)
  from c [rule_format, of "''a''"] have "find (\<lambda>pkg. Name pkg = ''a'')
          (rev (List.map_filter
             (\<lambda>entry. if IsDir entry
                then (case parseDescFile duplicateStore (descPath (entryName entry)) of
                        Inl e \<Rightarrow> None | Inr pkg \<Rightarrow> Some pkg)
                else None) entries))
      = Some \<lparr>Name = ''a'', Version = ''2.0'', InstallReason = explicitlyInstalled,
               Dependencies = [], RequiredBy = []\<rparr>"
    by simp
  with duplicateStore_loads show ?thesis by (simp only: e)
qed

text \<open>
  Claim C7, as the specification states it: after \<^verbatim>\<open>loadAllPackages\<close>, no query
  changes a field of a record of the index.  \<^verbatim>\<open>getPackageInfo\<close> writes the packages
  that require \<open>a\<close> into the record of \<open>a\<close> that the index holds.
\<close>

theorem getPackageInfo_changes_record:
  "(case loadAllPackages twoPackageStore of
      Inl e \<Rightarrow> False
    | Inr cache \<Rightarrow>
        (case getPackageInfo [''a'', ''b''] ''a'' cache of
           Inl e \<Rightarrow> False
         | Inr (pkg, cache') \<Rightarrow>
             map_option RequiredBy (cache ''a'') = Some []
             \<and> map_option RequiredBy (cache' ''a'') = Some [''b'']))"
  by (simp add: twoPackageStore_loads getPackageInfo_def findRequiredBy_def rangeValues_def
      cleanDependencyName_def FieldsFunc_def isSeparator_def Let_def)

text \<open>
  Claim C7, amended: \<^verbatim>\<open>getPackageInfo\<close> replaces the \<^verbatim>\<open>RequiredBy\<close> field of the
  record of the queried package in the index by the result of \<^verbatim>\<open>findRequiredBy\<close>; it
  changes no other field of that record and no other record.
  (\<^verbatim>\<open>findInstallationChains\<close> and \<^verbatim>\<open>findRequiredBy\<close> only read the index: the
  functions that model them return no index.)
\<close>

theorem getPackageInfo_frame:
  assumes "getPackageInfo ks pkgName cache = Inr (pkg, cache')"
  shows "(\<forall>k. k \<noteq> pkgName \<longrightarrow> cache' k = cache k)
    \<and> cache' pkgName = Some pkg
    \<and> findRequiredBy ks pkgName cache = Inr (RequiredBy pkg)
    \<and> (\<exists>old. cache pkgName = Some old \<and> pkg = old\<lparr>RequiredBy := RequiredBy pkg\<rparr>)"
  using assms
  by (auto simp: getPackageInfo_def Let_def split: option.splits sum.splits)

text \<open>The amended claim C7 for the query of \<open>a\<close> in the index of \<open>a\<close> and \<open>b\<close>.\<close>

theorem getPackageInfo_frame_witness:
  "getPackageInfo [''b'', ''a''] ''a''
     [''a'' \<mapsto> \<lparr>Name = ''a'', Version = ''1.0'', InstallReason = installedAsDependency,
                 Dependencies = [], RequiredBy = []\<rparr>,
      ''b'' \<mapsto> \<lparr>Name = ''b'', Version = ''2.0'', InstallReason = explicitlyInstalled,
                 Dependencies = [''a>=1.0''], RequiredBy = []\<rparr>]
   = Inr (\<lparr>Name = ''a'', Version = ''1.0'', InstallReason = installedAsDependency,
            Dependencies = [], RequiredBy = [''b'']\<rparr>,
          [''a'' \<mapsto> \<lparr>Name = ''a'', Version = ''1.0'', InstallReason = installedAsDependency,
                 Dependencies = [], RequiredBy = [''b'']\<rparr>,
           ''b'' \<mapsto> \<lparr>Name = ''b'', Version = ''2.0'', InstallReason = explicitlyInstalled,
                 Dependencies = [''a>=1.0''], RequiredBy = []\<rparr>])
   \<and> findRequiredBy [''b'', ''a''] ''a''
     [''a'' \<mapsto> \<lparr>Name = ''a'', Version = ''1.0'', InstallReason = installedAsDependency,
                 Dependencies = [], RequiredBy = []\<rparr>,
      ''b'' \<mapsto> \<lparr>Name = ''b'', Version = ''2.0'', InstallReason = explicitlyInstalled,
                 Dependencies = [''a>=1.0''], RequiredBy = []\<rparr>] = Inr [''b'']"
  using getPackageInfo_frame [OF twoPackage_info] twoPackage_info by simp

text \<open>
  Claim C8: for every index and every name \<open>N\<close>, whenever
  \<^verbatim>\<open>buildReverseDependencyMap\<close> produces its map, \<^verbatim>\<open>findRequiredBy\<close> returns, and the
  names it returns are the entries of the map under \<open>N\<close>: the names of the packages
  of the index that have a dependency whose cleaned name is \<open>N\<close>.
\<close>

theorem findRequiredBy_reverseDeps:
  assumes "rangeOrder ks1 cache" and "rangeOrder ks2 cache"
    and "buildReverseDependencyMap ks1 cache = Inr reverseDeps"
  shows "\<exists>requiredBy. findRequiredBy ks2 N cache = Inr requiredBy
    \<and> set requiredBy = set (reverseDeps N)
    \<and> set requiredBy =
        {Name p |p. p \<in> ran cache \<and> (\<exists>d\<in>set (Dependencies p). cleanDependencyName d = Inr N)}"
proof -
  let ?P = "\<lambda>p. \<exists>d\<in>set (Dependencies p). cleanDependencyName d = Inr N"
  from assms(1,2) have s1: "set (rangeValues ks1 cache) = ran cache"
    and s2: "set (rangeValues ks2 cache) = ran cache"
    by (simp_all add: rangeOrder_def set_rangeValues)
  from assms(3) have ok: "\<forall>p\<in>ran cache. \<forall>d\<in>set (Dependencies p). \<not> isl (cleanDependencyName d)"
    and rd: "reverseDeps = (\<lambda>k. [] @ concat (map (\<lambda>p. map (\<lambda>_. Name p)
              (filter (\<lambda>d. cleanDependencyName d = Inr k) (Dependencies p))) (rangeValues ks1 cache)))"
    unfolding buildReverseDependencyMap_def buildLoop_eq s1 by (auto split: if_splits)
  have r: "findRequiredBy ks2 N cache = Inr ([] @ map Name (filter ?P (rangeValues ks2 cache)))"
    unfolding findRequiredBy_def using ok s2 by (intro requiredByLoop_eq) simp
  have a: "set (map Name (filter ?P (rangeValues ks2 cache))) = {Name p |p. p \<in> ran cache \<and> ?P p}"
    using s2 by auto
  have b: "set (reverseDeps N) = {Name p |p. p \<in> ran cache \<and> ?P p}"
    unfolding rd using s1 by (auto simp: filter_empty_conv)
  from r a b show ?thesis by simp
qed

text \<open>Claim C8 for the packages that require \<open>Z\<close> in the index \<^const>\<open>diamondIndex\<close>.\<close>

theorem findRequiredBy_reverseDeps_witness:
  "rangeOrder [''X'', ''Y'', ''Z''] diamondIndex \<and> rangeOrder [''Y'', ''X'', ''Z''] diamondIndex
   \<and> buildReverseDependencyMap [''X'', ''Y'', ''Z''] diamondIndex
        = Inr ((\<lambda>_. [])(''Z'' := [''X'', ''Y'']))
   \<and> findRequiredBy [''Y'', ''X'', ''Z''] ''Z'' diamondIndex = Inr [''Y'', ''X'']
   \<and> set [''Y'', ''X''] = set [''X'', ''Y'']"
proof -
  have r: "findRequiredBy [''Y'', ''X'', ''Z''] ''Z'' diamondIndex = Inr [''Y'', ''X'']"
    by (simp add: diamondIndex_def findRequiredBy_def
      rangeValues_def cleanDependencyName_def FieldsFunc_def isSeparator_def)
  from findRequiredBy_reverseDeps [OF diamond_order1 diamond_order2 diamond_reverseDeps, of "''Z''"] r
  have "set [''Y'', ''X''] = set (((\<lambda>_. [])(''Z'' := [''X'', ''Y''])) ''Z'')" by auto
  with diamond_order1 diamond_order2 diamond_reverseDeps r show ?thesis by simp
qed

end
